theory Spec2Isabelle
  imports Complex_Main "HOL-Library.Char_ord" "HOL-Library.List_Lexorder" "HOL-Library.Multiset"
begin

section \<open>The token store (comprasnet-token/server.py, RestTokenManager)\<close>

text \<open>
  The pool server keeps its tokens in a Redis instance: one string key with a time to
  live per token, and one sorted set (\<open>rest_token_sorted_set\<close>) that indexes the token
  keys by their timestamp. The Redis commands the program uses are modelled on an
  explicit state; Python floats (the timestamps of \<open>time.time()\<close>) are modelled as
  reals, Python strings as \<open>string\<close>.
\<close>

subsection \<open>Token records and stored texts\<close>

text \<open>The dictionary \<open>token_data\<close> built by \<open>token_worker\<close> (server.py, lines 228-234).\<close>

record token_data =
  token :: string
  duration :: real
  worker_id :: int
  timestamp :: real
  source :: string

text \<open>
  A string held under a Redis key. \<open>Json d\<close> is the text \<open>json.dumps(d)\<close>, which
  \<open>json.loads\<close> reads back as \<open>d\<close>; \<open>NotJson s\<close> is a text \<open>s\<close> that \<open>json.loads\<close>
  rejects (the empty string among them). The program itself only ever writes \<open>Json\<close>
  texts.
\<close>

datatype redis_text = Json token_data | NotJson string

datatype error = ConnectionError | JSONDecodeError | NotReady | GenerationFailed

definition json_dumps :: "token_data \<Rightarrow> redis_text" where
  "json_dumps d = Json d"

fun json_loads :: "redis_text \<Rightarrow> error + token_data" where
  "json_loads (Json d) = Inr d"
| "json_loads (NotJson s) = Inl JSONDecodeError"

text \<open>Python truthiness of a string: \<open>not s\<close> holds for the empty string only.\<close>

fun is_blank :: "redis_text \<Rightarrow> bool" where
  "is_blank (NotJson s) = (s = [])"
| "is_blank (Json d) = False"

subsection \<open>The Redis state and its commands\<close>

text \<open>
  \<open>kv\<close> maps a string key to its text and the absolute time at which it expires;
  \<open>zset\<close> is the sorted set as a list of (member, score) pairs, one pair per member;
  \<open>faults\<close> is the connection's future: each command sent consumes the head, and
  \<open>True\<close> means the command raises \<open>redis.ConnectionError\<close> without effect. An
  exhausted list is a healthy connection.
\<close>

record redis =
  kv :: "string \<rightharpoonup> (redis_text \<times> real)"
  zset :: "(string \<times> real) list"
  faults :: "bool list"

definition send :: "redis \<Rightarrow> bool \<times> redis" where
  "send r = (case faults r of [] \<Rightarrow> (True, r) | f # fs \<Rightarrow> (\<not> f, r\<lparr>faults := fs\<rparr>))"

text \<open>\<open>SETEX key seconds value\<close> at server time \<open>now\<close>.\<close>

definition setex :: "real \<Rightarrow> string \<Rightarrow> real \<Rightarrow> redis_text \<Rightarrow> redis \<Rightarrow> (error + unit) \<times> redis" where
  "setex now k ttl v r =
     (case send r of
        (False, r') \<Rightarrow> (Inl ConnectionError, r')
      | (True, r') \<Rightarrow> (Inr (), r'\<lparr>kv := (kv r')(k \<mapsto> (v, now + ttl))\<rparr>))"

text \<open>\<open>GET key\<close> at server time \<open>now\<close>: a key past its expiry time reads as absent.\<close>

definition get :: "real \<Rightarrow> string \<Rightarrow> redis \<Rightarrow> (error + redis_text option) \<times> redis" where
  "get now k r =
     (case send r of
        (False, r') \<Rightarrow> (Inl ConnectionError, r')
      | (True, r') \<Rightarrow>
          (case kv r' k of
             None \<Rightarrow> (Inr None, r')
           | Some (v, expires) \<Rightarrow> (if now \<le> expires then (Inr (Some v), r') else (Inr None, r'))))"

text \<open>\<open>DEL key\<close>.\<close>

definition delete :: "string \<Rightarrow> redis \<Rightarrow> (error + unit) \<times> redis" where
  "delete k r =
     (case send r of
        (False, r') \<Rightarrow> (Inl ConnectionError, r')
      | (True, r') \<Rightarrow> (Inr (), r'\<lparr>kv := (kv r')(k := None)\<rparr>))"

text \<open>\<open>ZADD key score member\<close>: a member already present gets the new score.\<close>

definition zadd :: "string \<Rightarrow> real \<Rightarrow> redis \<Rightarrow> (error + unit) \<times> redis" where
  "zadd m s r =
     (case send r of
        (False, r') \<Rightarrow> (Inl ConnectionError, r')
      | (True, r') \<Rightarrow> (Inr (), r'\<lparr>zset := (m, s) # filter (\<lambda>e. fst e \<noteq> m) (zset r')\<rparr>))"

text \<open>\<open>ZCARD key\<close>.\<close>

definition zcard :: "redis \<Rightarrow> (error + nat) \<times> redis" where
  "zcard r =
     (case send r of
        (False, r') \<Rightarrow> (Inl ConnectionError, r')
      | (True, r') \<Rightarrow> (Inr (length (zset r')), r'))"

text \<open>
  The order of a sorted set: by score, members of equal score lexicographically.
  \<open>zmax\<close> is the entry \<open>ZPOPMAX\<close> takes.
\<close>

definition zless :: "string \<times> real \<Rightarrow> string \<times> real \<Rightarrow> bool" where
  "zless a b = (snd a < snd b \<or> (snd a = snd b \<and> fst a < fst b))"

fun zmax :: "(string \<times> real) list \<Rightarrow> (string \<times> real) option" where
  "zmax [] = None"
| "zmax (e # es) =
     (case zmax es of None \<Rightarrow> Some e | Some m \<Rightarrow> (if zless m e then Some e else Some m))"

text \<open>\<open>ZPOPMAX key\<close>: the reply is a list of at most one (member, score) pair.\<close>

definition zpopmax :: "redis \<Rightarrow> (error + (string \<times> real) list) \<times> redis" where
  "zpopmax r =
     (case send r of
        (False, r') \<Rightarrow> (Inl ConnectionError, r')
      | (True, r') \<Rightarrow>
          (case zmax (zset r') of
             None \<Rightarrow> (Inr [], r')
           | Some e \<Rightarrow> (Inr [e], r'\<lparr>zset := remove1 e (zset r')\<rparr>)))"

text \<open>\<open>ZREMRANGEBYSCORE key -inf max\<close>: both ends of the range are inclusive.\<close>

definition zremrangebyscore_upto :: "real \<Rightarrow> redis \<Rightarrow> (error + nat) \<times> redis" where
  "zremrangebyscore_upto mx r =
     (case send r of
        (False, r') \<Rightarrow> (Inl ConnectionError, r')
      | (True, r') \<Rightarrow>
          (Inr (length (filter (\<lambda>e. snd e \<le> mx) (zset r'))),
           r'\<lparr>zset := filter (\<lambda>e. \<not> snd e \<le> mx) (zset r')\<rparr>))"

subsection \<open>RestTokenManager: storage operations\<close>

definition token_expiry :: real where
  "token_expiry = 120"

text \<open>Python's \<open>s[-10:]\<close>: the last ten characters, or all of \<open>s\<close> when it is shorter.\<close>

definition last10 :: "string \<Rightarrow> string" where
  "last10 s = drop (length s - 10) s"

definition token_key :: "token_data \<Rightarrow> string" where
  "token_key d = ''rest_token:'' @ last10 (token d)"

text \<open>
  \<open>add_token\<close> (lines 95-106): two commands, no exception handler; an error of the
  first command leaves the second unsent.
\<close>

definition add_token :: "real \<Rightarrow> token_data \<Rightarrow> redis \<Rightarrow> (error + unit) \<times> redis" where
  "add_token now d r =
     (case setex now (token_key d) token_expiry (json_dumps d) r of
        (Inl e, r1) \<Rightarrow> (Inl e, r1)
      | (Inr u, r1) \<Rightarrow> zadd (token_key d) (timestamp d) r1)"

text \<open>
  \<open>get_newest_token\<close> (lines 108-133). \<open>get_newest_token_try\<close> is the body of the
  \<open>try\<close> block, in which any command or \<open>json.loads\<close> may raise;
  \<open>get_newest_token\<close> adds the handler \<open>except Exception: return None\<close>.
\<close>

definition get_newest_token_try :: "real \<Rightarrow> redis \<Rightarrow> (error + token_data option) \<times> redis" where
  "get_newest_token_try now r =
     (case zpopmax r of
        (Inl e, r1) \<Rightarrow> (Inl e, r1)
      | (Inr [], r1) \<Rightarrow> (Inr None, r1)
      | (Inr ((tkey, score) # rest), r1) \<Rightarrow>
          (case get now tkey r1 of
             (Inl e, r2) \<Rightarrow> (Inl e, r2)
           | (Inr None, r2) \<Rightarrow> (Inr None, r2)
           | (Inr (Some txt), r2) \<Rightarrow>
               (if is_blank txt then (Inr None, r2)
                else (case json_loads txt of
                        Inl e \<Rightarrow> (Inl e, r2)
                      | Inr d \<Rightarrow>
                          (case delete tkey r2 of
                             (Inl e, r3) \<Rightarrow> (Inl e, r3)
                           | (Inr u, r3) \<Rightarrow> (Inr (Some d), r3))))))"

definition get_newest_token :: "real \<Rightarrow> redis \<Rightarrow> token_data option \<times> redis" where
  "get_newest_token now r =
     (case get_newest_token_try now r of
        (Inl e, r') \<Rightarrow> (None, r')
      | (Inr res, r') \<Rightarrow> (res, r'))"

text \<open>\<open>get_token_count\<close> (lines 87-93).\<close>

definition get_token_count :: "redis \<Rightarrow> nat \<times> redis" where
  "get_token_count r = (case zcard r of (Inl e, r') \<Rightarrow> (0, r') | (Inr n, r') \<Rightarrow> (n, r'))"

text \<open>
  \<open>cleanup_stale_references\<close> (lines 135-155), with \<open>now\<close> the value of
  \<open>time.time()\<close>. The function has its own handler, which returns 0, so its result
  is never an error; the sum type keeps the shape the caller's \<open>try\<close> expects.
\<close>

definition cleanup_stale_references_try :: "real \<Rightarrow> redis \<Rightarrow> (error + nat) \<times> redis" where
  "cleanup_stale_references_try now r =
     (let expired_cutoff = now - token_expiry - 60
      in zremrangebyscore_upto expired_cutoff r)"

definition cleanup_stale_references :: "real \<Rightarrow> redis \<Rightarrow> (error + nat) \<times> redis" where
  "cleanup_stale_references now r =
     (case cleanup_stale_references_try now r of
        (Inl e, r') \<Rightarrow> (Inr 0, r')
      | (Inr removed, r') \<Rightarrow> (Inr removed, r'))"

subsection \<open>The HTTP routes over the store\<close>

datatype http_response =
    TokenFound token_data
  | CleanupDone nat
  | HttpError nat string

text \<open>
  \<open>GET /token\<close> (lines 407-421). The reply's \<open>age_seconds\<close> field, computed from the
  clock at reply time, is left out of the model.
\<close>

definition get_newest_token_route :: "real \<Rightarrow> redis \<Rightarrow> http_response \<times> redis" where
  "get_newest_token_route now r =
     (case get_newest_token now r of
        (Some d, r') \<Rightarrow> (TokenFound d, r')
      | (None, r') \<Rightarrow> (HttpError 404 ''No tokens available'', r'))"

text \<open>\<open>POST /cleanup\<close> (lines 436-447).\<close>

definition cleanup_stale_tokens :: "real \<Rightarrow> redis \<Rightarrow> http_response \<times> redis" where
  "cleanup_stale_tokens now r =
     (case cleanup_stale_references now r of
        (Inr removed, r') \<Rightarrow> (CleanupDone removed, r')
      | (Inl e, r') \<Rightarrow> (HttpError 500 ''Cleanup failed'', r'))"

subsection \<open>Sequences of calls\<close>

text \<open>A run of \<open>add_token\<close> calls, each at its own server time, and a run of pops.\<close>

fun add_all :: "(real \<times> token_data) list \<Rightarrow> redis \<Rightarrow> redis" where
  "add_all [] r = r"
| "add_all (a # as) r = add_all as (snd (add_token (fst a) (snd a) r))"

fun pop_all :: "real list \<Rightarrow> redis \<Rightarrow> token_data option list \<times> redis" where
  "pop_all [] r = ([], r)"
| "pop_all (now # ts) r =
     (case get_newest_token now r of
        (x, r1) \<Rightarrow> (case pop_all ts r1 of (xs, r2) \<Rightarrow> (x # xs, r2)))"

text \<open>
  The value under key \<open>k\<close> is past its time to live at time \<open>now\<close>, or was never
  there: what \<open>GET\<close> reports as absent.
\<close>

definition expired_at :: "real \<Rightarrow> string \<Rightarrow> redis \<Rightarrow> bool" where
  "expired_at now k r = (case kv r k of None \<Rightarrow> True | Some (v, expires) \<Rightarrow> expires < now)"

text \<open>A store with no key, no index entry and a healthy connection.\<close>

definition empty_store :: redis where
  "empty_store = \<lparr>kv = Map.empty, zset = [], faults = []\<rparr>"

text \<open>Sample data: a token record, and a store that holds one live token.\<close>

definition tok :: "string \<Rightarrow> real \<Rightarrow> token_data" where
  "tok t ts = \<lparr>token = t, duration = 1, worker_id = 1, timestamp = ts, source = ''rest_api''\<rparr>"

definition one_token_store :: "bool list \<Rightarrow> redis" where
  "one_token_store fs =
     \<lparr>kv = [''rest_token:abc'' \<mapsto> (Json (tok ''abc'' 100), 220)],
      zset = [(''rest_token:abc'', 100)], faults = fs\<rparr>"

subsection \<open>Notions for stating the order of pops\<close>

text \<open>
  \<open>zpops n es\<close> lists the entries that \<open>n\<close> successive \<open>ZPOPMAX\<close> commands take from
  the index \<open>es\<close>.
\<close>

fun zpops :: "nat \<Rightarrow> (string \<times> real) list \<Rightarrow> (string \<times> real) list" where
  "zpops 0 es = []"
| "zpops (Suc n) es = (case zmax es of None \<Rightarrow> [] | Some e \<Rightarrow> e # zpops n (remove1 e es))"

text \<open>The record that the value under a key deserialises to, if there is one.\<close>

definition record_at :: "redis \<Rightarrow> string \<Rightarrow> token_data option" where
  "record_at r k = (case kv r k of Some (Json d, e) \<Rightarrow> Some d | _ \<Rightarrow> None)"

text \<open>
  A healthy store in which every index entry has its own key and a value that is still
  alive at each of the times \<open>ts\<close>.
\<close>

definition coupled :: "real list \<Rightarrow> redis \<Rightarrow> bool" where
  "coupled ts r \<longleftrightarrow>
     faults r = [] \<and> distinct (map fst (zset r))
     \<and> (\<forall>e\<in>set (zset r). \<exists>d x. kv r (fst e) = Some (Json d, x) \<and> (\<forall>p\<in>set ts. p \<le> x))"

text \<open>
  The index entry written for an add, and the adds of a run that no later add of the
  same key overwrites.
\<close>

definition entry :: "real \<times> token_data \<Rightarrow> string \<times> real" where
  "entry a = (token_key (snd a), timestamp (snd a))"

fun survivors :: "(real \<times> token_data) list \<Rightarrow> (real \<times> token_data) list" where
  "survivors [] = []"
| "survivors (a # as) =
     (if token_key (snd a) \<in> set (map (\<lambda>b. token_key (snd b)) as) then survivors as
      else a # survivors as)"

text \<open>The scenario of the specification: records issued at 100, 105 and 103.\<close>

definition three_adds :: "(real \<times> token_data) list" where
  "three_adds = [(1, tok ''t-100'' 100), (2, tok ''t-105'' 105), (3, tok ''t-103'' 103)]"

section \<open>The worker pool (comprasnet-token/server.py, RestTokenManager)\<close>

text \<open>
  A task handed to the executor: \<open>token_worker(worker_id, shutdown_event)\<close>. Events
  are objects on the heap; \<open>task_event\<close> is the address of the task's own event.
\<close>

record worker_task =
  task_worker_id :: int
  task_event :: nat

text \<open>
  The \<open>ThreadPoolExecutor\<close> built once in \<open>__init__\<close> (line 50) with three threads.
  A submitted task is taken by a free thread if there is one and waits in the work
  queue otherwise; a worker task runs until its event is set.
\<close>

record executor =
  thread_cap :: nat
  running :: "worker_task list"
  queued :: "worker_task list"

definition submit :: "worker_task \<Rightarrow> executor \<Rightarrow> executor" where
  "submit t ex =
     (if length (running ex) < thread_cap ex then ex\<lparr>running := running ex @ [t]\<rparr>
      else ex\<lparr>queued := queued ex @ [t]\<rparr>)"

text \<open>
  The manager's fields (lines 48-53). \<open>events\<close> is the heap of \<open>threading.Event\<close>
  objects created so far, each with its flag; \<open>worker_shutdown_events\<close> holds addresses
  into it. \<open>workers_running\<close> is the counter the workers themselves keep.
\<close>

record manager =
  max_workers :: int
  workers_running :: int
  executor :: executor
  events :: "bool list"
  worker_shutdown_events :: "nat list"
  generation_active :: bool

definition init_manager :: manager where
  "init_manager =
     \<lparr>max_workers = 3, workers_running = 0,
      executor = \<lparr>thread_cap = 3, running = [], queued = []\<rparr>,
      events = [], worker_shutdown_events = [], generation_active = False\<rparr>"

datatype message = AlreadyActive | Started int | NotActive | Stopped

text \<open>
  \<open>start_token_generation\<close> (lines 178-189). \<open>workers or self.max_workers\<close> takes
  the old count when \<open>workers\<close> is \<open>None\<close> or 0; \<open>range(n)\<close> is empty for \<open>n \<le> 0\<close>.
\<close>

definition start_token_generation :: "int option \<Rightarrow> manager \<Rightarrow> (bool \<times> message) \<times> manager" where
  "start_token_generation workers m =
     (if generation_active m then ((False, AlreadyActive), m)
      else
        (let mw = (case workers of None \<Rightarrow> max_workers m
                   | Some w \<Rightarrow> (if w = 0 then max_workers m else w));
             n = nat mw;
             refs = map (\<lambda>i. length (events m) + i) [0..<n];
             tasks = map (\<lambda>i. \<lparr>task_worker_id = int i + 1, task_event = refs ! i\<rparr>) [0..<n]
         in ((True, Started mw),
             m\<lparr>generation_active := True, max_workers := mw,
               events := events m @ replicate n False,
               worker_shutdown_events := refs,
               executor := fold submit tasks (executor m)\<rparr>)))"

text \<open>
  \<open>stop_token_generation\<close> (lines 191-206). After setting the events the function
  polls \<open>workers_running\<close> for at most ten seconds; the polling changes nothing and
  the result does not depend on it.
\<close>

definition stop_token_generation :: "manager \<Rightarrow> (bool \<times> message) \<times> manager" where
  "stop_token_generation m =
     (if \<not> generation_active m then ((False, NotActive), m)
      else
        ((True, Stopped),
         m\<lparr>generation_active := False,
           events := fold (\<lambda>ref es. es[ref := True]) (worker_shutdown_events m) (events m)\<rparr>))"


section \<open>The on-demand server (token-comprasnet.py, OnDemandTokenServer)\<close>

subsection \<open>The browser and the clock\<close>

text \<open>
  The browser is outside the program: every call into it either returns or raises, as
  the environment decides. \<open>world\<close> holds the clock and, for each kind of call, the
  outcomes of the calls still to come, in order; a call takes the head of its list. A
  list that has run out stands for a browser that is gone (the call raises), except for
  \<open>probes\<close>, where it stands for a page on which the widget never appears. Every call
  takes the time \<open>delays\<close> gives it. \<open>script_runs\<close> counts the calls of
  \<open>execute_script\<close> made so far and \<open>launched\<close> the browsers started.
\<close>

datatype 'a outcome = Returns 'a | Raises

record world =
  clock :: real
  delays :: "real list"
  launches :: "unit outcome list"
  navigations :: "unit outcome list"
  probes :: "bool outcome list"
  scripts :: "string option outcome list"
  script_runs :: nat
  launched :: nat

definition elapse :: "world \<Rightarrow> world" where
  "elapse w = (case delays w of [] \<Rightarrow> w | d # ds \<Rightarrow> w\<lparr>clock := clock w + d, delays := ds\<rparr>)"

text \<open>\<open>driver.sleep(seconds)\<close>.\<close>

definition sleep :: "real \<Rightarrow> world \<Rightarrow> world" where
  "sleep seconds w = w\<lparr>clock := clock w + seconds\<rparr>"

text \<open>\<open>Driver(uc=True, headless=True, no_sandbox=True)\<close>.\<close>

definition launch :: "world \<Rightarrow> unit outcome \<times> world" where
  "launch w =
     (let w1 = elapse w
      in case launches w1 of
           [] \<Rightarrow> (Raises, w1)
         | Raises # xs \<Rightarrow> (Raises, w1\<lparr>launches := xs\<rparr>)
         | Returns u # xs \<Rightarrow> (Returns u, w1\<lparr>launches := xs, launched := launched w1 + 1\<rparr>))"

text \<open>\<open>driver.get(url)\<close>.\<close>

definition navigate :: "world \<Rightarrow> unit outcome \<times> world" where
  "navigate w =
     (let w1 = elapse w
      in case navigations w1 of
           [] \<Rightarrow> (Raises, w1)
         | x # xs \<Rightarrow> (x, w1\<lparr>navigations := xs\<rparr>))"

text \<open>\<open>driver.execute_script(js_to_get_token)\<close>: the value the script's promise resolves to.\<close>

definition execute_script :: "world \<Rightarrow> string option outcome \<times> world" where
  "execute_script w =
     (let w1 = (elapse w)\<lparr>script_runs := script_runs w + 1\<rparr>
      in case scripts w1 of
           [] \<Rightarrow> (Raises, w1)
         | x # xs \<Rightarrow> (x, w1\<lparr>scripts := xs\<rparr>))"

subsection \<open>The server\<close>

text \<open>The fields of \<open>OnDemandTokenServer\<close> that change (lines 29-35).\<close>

record server =
  driver :: "nat option"
  browser_ready :: bool
  last_keepalive :: real

definition keepalive_interval :: real where
  "keepalive_interval = 300"

text \<open>
  The loop of \<open>_initialize_browser\<close> (lines 51-54), run on the answers \<open>ps\<close> that
  \<open>is_element_present\<close> still has to give: \<open>Some (True, w)\<close> when the widget is seen,
  \<open>Some (False, w)\<close> when a call raises, \<open>None\<close> when the loop never ends.
\<close>

fun await_widget :: "bool outcome list \<Rightarrow> world \<Rightarrow> (bool \<times> world) option" where
  "await_widget [] w = None"
| "await_widget (p # ps) w =
     (let w1 = (elapse w)\<lparr>probes := ps\<rparr>
      in case p of
           Raises \<Rightarrow> Some (False, w1)
         | Returns True \<Rightarrow> Some (True, w1)
         | Returns False \<Rightarrow>
             (case navigate w1 of
                (Raises, w2) \<Rightarrow> Some (False, w2)
              | (Returns u, w2) \<Rightarrow> await_widget ps (sleep 2 w2)))"

text \<open>
  \<open>_initialize_browser\<close> (lines 41-62). \<open>set_script_timeout\<close> and \<open>sleep\<close> are taken
  not to raise. Any exception ends in the handler, which clears \<open>browser_ready\<close>.
\<close>

definition initialize_browser :: "server \<Rightarrow> world \<Rightarrow> (server \<times> world) option" where
  "initialize_browser s w =
     (case launch w of
        (Raises, w1) \<Rightarrow> Some (s\<lparr>browser_ready := False\<rparr>, w1)
      | (Returns u, w1) \<Rightarrow>
          (let s1 = s\<lparr>driver := Some (launched w1)\<rparr>
           in case navigate w1 of
                (Raises, w2) \<Rightarrow> Some (s1\<lparr>browser_ready := False\<rparr>, w2)
              | (Returns u, w2) \<Rightarrow>
                  (case await_widget (probes w2) (sleep 2 w2) of
                     None \<Rightarrow> None
                   | Some (False, w3) \<Rightarrow> Some (s1\<lparr>browser_ready := False\<rparr>, w3)
                   | Some (True, w3) \<Rightarrow>
                       Some (s1\<lparr>browser_ready := True, last_keepalive := clock w3\<rparr>, w3))))"

text \<open>\<open>if self.driver: try: self.driver.quit() except: pass\<close>.\<close>

definition quit_driver :: "server \<Rightarrow> world \<Rightarrow> world" where
  "quit_driver s w = (case driver s of None \<Rightarrow> w | Some h \<Rightarrow> elapse w)"

text \<open>\<open>str(token) if token else None\<close>, and Python's \<open>not token\<close>.\<close>

definition truthy_str :: "string option \<Rightarrow> string option" where
  "truthy_str v = (case v of None \<Rightarrow> None | Some t \<Rightarrow> (if t = [] then None else Some t))"

definition falsy :: "string option \<Rightarrow> bool" where
  "falsy v = (case v of None \<Rightarrow> True | Some t \<Rightarrow> t = [])"

text \<open>
  \<open>_generate_token\<close> (lines 106-142): the token (or \<open>None\<close>) and the duration. An
  exception of the script clears \<open>browser_ready\<close>, quits the browser and initializes a
  new one before the function returns.
\<close>

definition generate_token :: "server \<Rightarrow> world \<Rightarrow> ((string option \<times> real) \<times> server \<times> world) option" where
  "generate_token s w =
     (if \<not> browser_ready s \<or> driver s = None then Some ((None, 0), s, w)
      else
        (let start_time = clock w
         in case execute_script w of
              (Returns v, w1) \<Rightarrow> Some ((truthy_str v, clock w1 - start_time), s, w1)
            | (Raises, w1) \<Rightarrow>
                (let dur = clock w1 - start_time;
                     s1 = s\<lparr>browser_ready := False\<rparr>
                 in case initialize_browser s1 (quit_driver s1 w1) of
                      None \<Rightarrow> None
                    | Some (s2, w3) \<Rightarrow> Some ((None, dur), s2, w3))))"

text \<open>\<open>_refresh_page\<close> (lines 144-151): an exception is printed and dropped.\<close>

definition refresh_page :: "server \<Rightarrow> world \<Rightarrow> world" where
  "refresh_page s w =
     (case driver s of
        None \<Rightarrow> w
      | Some h \<Rightarrow> (case navigate w of (Raises, w1) \<Rightarrow> w1 | (Returns u, w1) \<Rightarrow> sleep 2 w1))"

text \<open>The dictionary \<open>get_token\<close> returns.\<close>

record token_reply =
  reply_token :: string
  reply_duration :: real
  reply_timestamp :: real

text \<open>
  \<open>get_token\<close> (lines 153-178). \<open>Inl NotReady\<close> is the exception "Browser not ready",
  \<open>Inl GenerationFailed\<close> the exception "Failed to generate token after retry".
\<close>

definition get_token :: "server \<Rightarrow> world \<Rightarrow> ((error + token_reply) \<times> server \<times> world) option" where
  "get_token s w =
     (if \<not> browser_ready s then Some (Inl NotReady, s, w)
      else
        (case generate_token s w of
           None \<Rightarrow> None
         | Some ((token1, dur1), s1, w1) \<Rightarrow>
             (case (if falsy token1 then generate_token s1 (refresh_page s1 w1)
                    else Some ((token1, dur1), s1, w1)) of
                None \<Rightarrow> None
              | Some ((token2, dur2), s2, w2) \<Rightarrow>
                  (case token2 of
                     None \<Rightarrow> Some (Inl GenerationFailed, s2, w2)
                   | Some t \<Rightarrow>
                       (if t = [] then Some (Inl GenerationFailed, s2, w2)
                        else Some (Inr \<lparr>reply_token = t, reply_duration = dur2,
                                        reply_timestamp = clock w2\<rparr>,
                                   s2\<lparr>last_keepalive := clock w2\<rparr>, w2))))))"

text \<open>
  One round of \<open>keepalive_worker\<close> (lines 67-101), from the \<open>sleep(30)\<close> to the end of
  the loop body. When the refresh after a failed keepalive raises, the handler restarts
  the browser.
\<close>

definition keepalive_round :: "server \<Rightarrow> world \<Rightarrow> (server \<times> world) option" where
  "keepalive_round s w =
     (let w0 = sleep 30 w
      in if \<not> browser_ready s then Some (s, w0)
         else if keepalive_interval \<le> clock w0 - last_keepalive s then
           (case generate_token s w0 of
              None \<Rightarrow> None
            | Some ((tk, dur), s1, w1) \<Rightarrow>
                (if \<not> falsy tk then Some (s1\<lparr>last_keepalive := clock w1\<rparr>, w1)
                 else
                   (case navigate w1 of
                      (Returns u, w2) \<Rightarrow> Some (s1, sleep 2 w2)
                    | (Raises, w2) \<Rightarrow>
                        (let s2 = s1\<lparr>browser_ready := False\<rparr>
                         in initialize_browser s2 (quit_driver s2 w2)))))
         else Some (s, w0))"

text \<open>A server that is ready, and a quiet world in which no call is scripted yet.\<close>

definition ready_server :: server where
  "ready_server = \<lparr>driver = Some 1, browser_ready = True, last_keepalive = 0\<rparr>"

definition quiet :: world where
  "quiet = \<lparr>clock = 10, delays = [], launches = [], navigations = [], probes = [],
            scripts = [], script_runs = 0, launched = 1\<rparr>"

text \<open>
  The count a call of \<open>start_token_generation\<close> works with, and the tasks it builds:
  worker ids from 1, the \<open>i\<close>-th task holding the \<open>i\<close>-th new event.
\<close>

definition requested_count :: "int option \<Rightarrow> manager \<Rightarrow> int" where
  "requested_count workers m =
     (case workers of None \<Rightarrow> max_workers m | Some w \<Rightarrow> (if w = 0 then max_workers m else w))"

definition new_tasks :: "nat \<Rightarrow> nat \<Rightarrow> worker_task list" where
  "new_tasks base n = map (\<lambda>i. \<lparr>task_worker_id = int i + 1, task_event = base + i\<rparr>) [0..<n]"

section \<open>Properties of the token store\<close>

subsection \<open>Basic facts about the commands\<close>

lemma send_healthy: "faults r = [] \<Longrightarrow> send r = (True, r)"
  by (simp add: send_def)

lemma send_fields: "kv (snd (send r)) = kv r" "zset (snd (send r)) = zset r"
  by (auto simp: send_def split: list.splits)

lemma zmax_in_set: "zmax es = Some e \<Longrightarrow> e \<in> set es"
  by (induction es arbitrary: e) (auto split: option.splits if_splits)

subsection \<open>Popping from an empty store, and popping a stale index entry\<close>

lemma pop_empty:
  "zset r = [] \<Longrightarrow> get_newest_token now r = (None, snd (send r))"
  by (auto simp: get_newest_token_def get_newest_token_try_def zpopmax_def send_def
      split: list.splits bool.splits)

lemma pop_stale:
  assumes "fst (send r)" and "zmax (zset r) = Some (k, s)" and "expired_at now k r"
  shows "fst (get_newest_token now r) = None"
    and "zset (snd (get_newest_token now r)) = remove1 (k, s) (zset r)"
    and "kv (snd (get_newest_token now r)) = kv r"
  using assms
  by (auto simp: get_newest_token_def get_newest_token_try_def zpopmax_def get_def
      expired_at_def send_def
      split: list.splits bool.splits option.splits prod.splits if_splits)

text \<open>
  Claim C8. \<open>get_newest_token\<close> on a store whose index is empty returns \<open>None\<close>,
  whatever the connection does (the result type has no error, and the only change to
  the state is the consumed connection outcome). When the \<open>ZPOPMAX\<close> command goes
  through and the value of the entry it pops has expired (or is gone), the call returns
  \<open>None\<close> as well, removes exactly that one index entry and pops no second entry.
\<close>

theorem pop_empty_or_stale:
  "(zset r = [] \<longrightarrow> get_newest_token now r = (None, snd (send r)))
   \<and> (fst (send r) \<and> zmax (zset r) = Some (k, s) \<and> expired_at now k r \<longrightarrow>
        fst (get_newest_token now r) = None
        \<and> zset (snd (get_newest_token now r)) = remove1 (k, s) (zset r)
        \<and> length (zset (snd (get_newest_token now r))) + 1 = length (zset r)
        \<and> kv (snd (get_newest_token now r)) = kv r)"
proof -
  have "length (remove1 (k, s) (zset r)) + 1 = length (zset r)"
    if "zmax (zset r) = Some (k, s)"
    using zmax_in_set [OF that] by (simp add: length_remove1) (cases "zset r"; simp)
  then show ?thesis
    using pop_empty [of r now] pop_stale [of r k s now] by simp
qed

theorem pop_empty_or_stale_witness:
  "get_newest_token 10 empty_store = (None, empty_store)
   \<and> fst (get_newest_token 500 (empty_store\<lparr>zset := [(''rest_token:a'', 100)]\<rparr>)) = None
   \<and> zset (snd (get_newest_token 500 (empty_store\<lparr>zset := [(''rest_token:a'', 100)]\<rparr>))) = []"
  using pop_empty_or_stale [of empty_store 10]
    pop_empty_or_stale [of "empty_store\<lparr>zset := [(''rest_token:a'', 100)]\<rparr>" 500 "''rest_token:a''" 100]
  by (simp add: empty_store_def send_def expired_at_def)

subsection \<open>Errors inside a pop\<close>

lemma try_error_none:
  "fst (get_newest_token_try now r) = Inl e \<Longrightarrow> fst (get_newest_token now r) = None"
  by (cases "get_newest_token_try now r") (simp add: get_newest_token_def)

lemma route_of_none:
  "fst (get_newest_token now r) = None \<Longrightarrow>
   fst (get_newest_token_route now r) = HttpError 404 ''No tokens available''"
  by (cases "get_newest_token now r") (simp add: get_newest_token_route_def)

text \<open>
  Claim C10. Whenever the body of \<open>get_newest_token\<close> raises (a connection error of
  \<open>ZPOPMAX\<close>, \<open>GET\<close> or \<open>DEL\<close>, or a \<open>json.loads\<close> error), the handler turns the
  exception into \<open>None\<close>, and \<open>GET /token\<close> answers with the same 404
  "No tokens available" that it gives for an empty store.
\<close>

theorem pop_failure_is_404:
  "(fst (get_newest_token_try now r) = Inl e \<longrightarrow>
      fst (get_newest_token now r) = None
      \<and> fst (get_newest_token_route now r) = HttpError 404 ''No tokens available'')
   \<and> (zset r' = [] \<longrightarrow>
      fst (get_newest_token_route now' r') = HttpError 404 ''No tokens available'')"
  using try_error_none [of now r e] route_of_none [of now r] route_of_none [of now' r']
    pop_empty [of r' now']
  by simp

theorem pop_failure_is_404_witness:
  "fst (get_newest_token_try 150 (one_token_store [True])) = Inl ConnectionError
   \<and> fst (get_newest_token_route 150 (one_token_store [True])) = HttpError 404 ''No tokens available''
   \<and> fst (get_newest_token_try 150 (one_token_store [False, True])) = Inl ConnectionError
   \<and> fst (get_newest_token_route 150 (one_token_store [False, True])) = HttpError 404 ''No tokens available''
   \<and> fst (get_newest_token_route 150 empty_store) = HttpError 404 ''No tokens available''
   \<and> fst (get_newest_token_route 150 (one_token_store [])) = TokenFound (tok ''abc'' 100)"
  using pop_failure_is_404 [of 150 "one_token_store [True]" ConnectionError empty_store 150]
    pop_failure_is_404 [of 150 "one_token_store [False, True]" ConnectionError empty_store 150]
  by (simp add: get_newest_token_try_def get_newest_token_def get_newest_token_route_def
      zpopmax_def get_def delete_def send_def one_token_store_def empty_store_def)

subsection \<open>Two tokens with the same last ten characters\<close>

lemma add_token_healthy:
  "faults r = [] \<Longrightarrow> add_token now d r =
     (Inr (), r\<lparr>kv := (kv r)(token_key d \<mapsto> (Json d, now + token_expiry)),
               zset := (token_key d, timestamp d) # filter (\<lambda>e. fst e \<noteq> token_key d) (zset r)\<rparr>)"
  by (simp add: add_token_def setex_def zadd_def send_def json_dumps_def)

text \<open>
  Claim C9. The key of a record is made of the last ten characters of its token. When
  two records with the same ten-character suffix are added over a healthy connection,
  the second add leaves the store exactly as if the first had never happened (so the
  first record can no longer be popped), the count after the second add is the count
  after the first, the value under the shared key is the second record, and the index
  holds one entry for that key, scored by the second record's timestamp.
\<close>

theorem same_suffix_overwrites:
  assumes "faults r = []" and "last10 (token d1) = last10 (token d2)"
  shows "add_token n2 d2 (snd (add_token n1 d1 r)) = add_token n2 d2 r
    \<and> fst (get_token_count (snd (add_token n2 d2 (snd (add_token n1 d1 r)))))
        = fst (get_token_count (snd (add_token n1 d1 r)))
    \<and> kv (snd (add_token n2 d2 (snd (add_token n1 d1 r)))) (token_key d1)
        = Some (Json d2, n2 + token_expiry)
    \<and> filter (\<lambda>e. fst e = token_key d1) (zset (snd (add_token n2 d2 (snd (add_token n1 d1 r)))))
        = [(token_key d2, timestamp d2)]"
proof -
  have k: "token_key d1 = token_key d2" using assms(2) by (simp add: token_key_def)
  show ?thesis using assms(1)
    by (simp add: add_token_healthy k get_token_count_def zcard_def send_def filter_filter
        cong: conj_cong)
qed


lemma last10_a: "last10 ''AAAAA0123456789'' = ''0123456789''"
  by (simp add: last10_def)

lemma last10_b: "last10 ''BBB0123456789'' = ''0123456789''"
  by (simp add: last10_def)

theorem same_suffix_overwrites_witness:
  "zset (snd (add_token 6 (tok ''BBB0123456789'' 105)
           (snd (add_token 1 (tok ''AAAAA0123456789'' 100) empty_store))))
     = [(''rest_token:0123456789'', 105)]
   \<and> fst (get_token_count (snd (add_token 6 (tok ''BBB0123456789'' 105)
           (snd (add_token 1 (tok ''AAAAA0123456789'' 100) empty_store))))) = 1
   \<and> fst (get_newest_token 7 (snd (add_token 6 (tok ''BBB0123456789'' 105)
           (snd (add_token 1 (tok ''AAAAA0123456789'' 100) empty_store)))))
        = Some (tok ''BBB0123456789'' 105)
   \<and> fst (get_newest_token 8 (snd (get_newest_token 7 (snd (add_token 6 (tok ''BBB0123456789'' 105)
           (snd (add_token 1 (tok ''AAAAA0123456789'' 100) empty_store))))))) = None"
  using same_suffix_overwrites [of empty_store "tok ''AAAAA0123456789'' 100"
      "tok ''BBB0123456789'' 105" 6 1]
  by (simp add: add_token_healthy empty_store_def tok_def token_key_def last10_a last10_b
      get_token_count_def zcard_def send_def get_newest_token_def get_newest_token_try_def
      zpopmax_def get_def delete_def token_expiry_def)

subsection \<open>The order of pops\<close>

lemma zmax_None: "zmax es = None \<longleftrightarrow> es = []"
  by (cases es) (auto split: option.splits)

lemma zless_trans: "zless a b \<Longrightarrow> zless b c \<Longrightarrow> zless a c"
  by (auto simp: zless_def)

lemma zless_total: "a = b \<or> zless a b \<or> zless b a"
  by (cases a; cases b) (auto simp: zless_def)

lemma zmax_greatest: "zmax es = Some m \<Longrightarrow> e \<in> set es \<Longrightarrow> e = m \<or> zless e m"
proof (induction es arbitrary: m)
  case Nil
  then show ?case by simp
next
  case (Cons x xs)
  show ?case
  proof (cases "zmax xs")
    case None
    then show ?thesis using Cons.prems by (simp add: zmax_None)
  next
    case (Some m')
    show ?thesis
    proof (cases "zless m' x")
      case True
      then have "m = x" using Cons.prems(1) Some by simp
      then show ?thesis using Cons.IH [OF Some] Cons.prems(2) True
        by (metis set_ConsD zless_trans)
    next
      case False
      then have "m = m'" using Cons.prems(1) Some by simp
      then show ?thesis using Cons.IH [OF Some] Cons.prems(2) False zless_total [of x m'] by auto
    qed
  qed
qed

lemma zmax_top_score:
  assumes "zmax es = Some m" and "distinct (map snd es)" and "e \<in> set (remove1 m es)"
  shows "snd e < snd m"
proof -
  have d: "distinct es" using assms(2) by (simp add: distinct_map)
  have e: "e \<in> set es" "e \<noteq> m" using assms(3) d by auto
  have "snd e \<noteq> snd m"
    using assms(2) e zmax_in_set [OF assms(1)] by (auto simp: distinct_map dest: inj_onD)
  then show ?thesis using zmax_greatest [OF assms(1) e(1)] e(2) by (auto simp: zless_def)
qed

lemma set_pops: "set (zpops n es) \<subseteq> set es"
proof (induction n arbitrary: es)
  case 0
  then show ?case by simp
next
  case (Suc n)
  show ?case
  proof (cases "zmax es")
    case None
    then show ?thesis by simp
  next
    case (Some e)
    then show ?thesis using Suc.IH [of "remove1 e es"] zmax_in_set [OF Some]
        set_remove1_subset [of e es] by auto
  qed
qed

lemma mset_pops: "mset (zpops n es) \<subseteq># mset es"
proof (induction n arbitrary: es)
  case 0
  then show ?case by simp
next
  case (Suc n)
  show ?case
  proof (cases "zmax es")
    case None
    then show ?thesis by simp
  next
    case (Some e)
    have "add_mset e (mset (zpops n (remove1 e es))) \<subseteq># add_mset e (mset (remove1 e es))"
      using Suc.IH [of "remove1 e es"] by simp
    then show ?thesis using Some zmax_in_set [OF Some] by simp
  qed
qed

lemma length_pops: "length (zpops n es) = min n (length es)"
proof (induction n arbitrary: es)
  case 0
  then show ?case by simp
next
  case (Suc n)
  show ?case
  proof (cases "zmax es")
    case None
    then show ?thesis by (simp add: zmax_None)
  next
    case (Some e)
    have "length (remove1 e es) = length es - 1" "0 < length es"
      using zmax_in_set [OF Some] by (auto simp: length_remove1 length_pos_if_in_set)
    then show ?thesis using Some Suc.IH [of "remove1 e es"] by (cases es) simp_all
  qed
qed

lemma mset_pops_all: "length es \<le> n \<Longrightarrow> mset (zpops n es) = mset es"
proof -
  assume "length es \<le> n"
  then have "size (mset (zpops n es)) = size (mset es)" by (simp add: length_pops)
  then show ?thesis using mset_pops [of n es]
    by (metis mset_subset_size subset_mset.less_le order_less_irrefl)
qed

lemma distinct_snd_remove1:
  assumes "distinct (map snd es)"
  shows "distinct (map snd (remove1 e es))"
proof -
  have "distinct es" using assms by (simp add: distinct_map)
  then have "remove1 e es = filter (\<lambda>x. x \<noteq> e) es"
    by (simp add: distinct_remove1_removeAll removeAll_filter_not_eq) (metis)
  then show ?thesis using assms by (simp add: distinct_map_filter)
qed

lemma sorted_pops:
  "distinct (map snd es) \<Longrightarrow> sorted_wrt (\<lambda>a b. snd b < snd a) (zpops n es)"
proof (induction n arbitrary: es)
  case 0
  then show ?case by simp
next
  case (Suc n)
  show ?case
  proof (cases "zmax es")
    case None
    then show ?thesis by simp
  next
    case (Some m)
    have "\<forall>e\<in>set (zpops n (remove1 m es)). snd e < snd m"
      using set_pops [of n "remove1 m es"] zmax_top_score [OF Some Suc.prems] by blast
    then show ?thesis
      using Some Suc.IH [OF distinct_snd_remove1 [OF Suc.prems]] by simp
  qed
qed

lemma distinct_fst_remove1:
  assumes "distinct (map fst es)"
  shows "distinct (map fst (remove1 e es))" and "e \<in> set es \<Longrightarrow> fst e \<notin> fst ` set (remove1 e es)"
proof -
  have d: "distinct es" using assms by (simp add: distinct_map)
  then have eq: "remove1 e es = filter (\<lambda>x. x \<noteq> e) es"
    by (simp add: distinct_remove1_removeAll removeAll_filter_not_eq) (metis)
  show "distinct (map fst (remove1 e es))" using assms eq by (simp add: distinct_map_filter)
  show "fst e \<notin> fst ` set (remove1 e es)" if "e \<in> set es"
    using assms that d by (auto simp: distinct_map dest: inj_onD)
qed

lemma pop_live:
  assumes "coupled (now # ts) r" and "zmax (zset r) = Some e"
  shows "\<exists>d. record_at r (fst e) = Some d
      \<and> get_newest_token now r
          = (Some d, r\<lparr>zset := remove1 e (zset r), kv := (kv r)(fst e := None)\<rparr>)"
proof -
  have f: "faults r = []" using assms(1) by (simp add: coupled_def)
  have "e \<in> set (zset r)" using assms(2) by (rule zmax_in_set)
  then obtain d x where dx: "kv r (fst e) = Some (Json d, x)" "now \<le> x"
    using assms(1) by (fastforce simp: coupled_def)
  have "get_newest_token now r
          = (Some d, r\<lparr>zset := remove1 e (zset r), kv := (kv r)(fst e := None)\<rparr>)"
    using f assms(2) dx
    by (cases e) (simp add: get_newest_token_def get_newest_token_try_def zpopmax_def get_def
        delete_def send_def)
  then show ?thesis using dx(1) by (simp add: record_at_def)
qed

lemma coupled_after_pop:
  assumes "coupled (now # ts) r" and "zmax (zset r) = Some e"
  shows "coupled ts (r\<lparr>zset := remove1 e (zset r), kv := (kv r)(fst e := None)\<rparr>)"
proof -
  have e: "e \<in> set (zset r)" using assms(2) by (rule zmax_in_set)
  have d: "distinct (map fst (zset r))" using assms(1) by (simp add: coupled_def)
  have other: "fst e' \<noteq> fst e" if "e' \<in> set (remove1 e (zset r))" for e'
    using distinct_fst_remove1(2) [OF d e] that by (metis imageI)
  have sub: "e' \<in> set (zset r)" if "e' \<in> set (remove1 e (zset r))" for e'
    using that set_remove1_subset by fastforce
  show ?thesis
    unfolding coupled_def
  proof (intro conjI ballI)
    show "faults (r\<lparr>zset := remove1 e (zset r), kv := (kv r)(fst e := None)\<rparr>) = []"
      using assms(1) by (simp add: coupled_def)
    show "distinct (map fst (zset (r\<lparr>zset := remove1 e (zset r), kv := (kv r)(fst e := None)\<rparr>)))"
      using distinct_fst_remove1(1) [OF d] by simp
  next
    fix e' assume "e' \<in> set (zset (r\<lparr>zset := remove1 e (zset r), kv := (kv r)(fst e := None)\<rparr>))"
    then have m: "e' \<in> set (remove1 e (zset r))" by simp
    obtain d' x where "kv r (fst e') = Some (Json d', x)" "\<forall>p\<in>set (now # ts). p \<le> x"
      using assms(1) sub [OF m] unfolding coupled_def by blast
    then show "\<exists>d x. kv (r\<lparr>zset := remove1 e (zset r), kv := (kv r)(fst e := None)\<rparr>) (fst e')
                 = Some (Json d, x) \<and> (\<forall>p\<in>set ts. p \<le> x)"
      using other [OF m] by simp
  qed
qed

lemma pops_Nil: "zpops n [] = []"
  by (cases n) simp_all

lemma pop_all_Cons:
  "fst (pop_all (now # ts) r)
     = fst (get_newest_token now r) # fst (pop_all ts (snd (get_newest_token now r)))"
  "snd (pop_all (now # ts) r) = snd (pop_all ts (snd (get_newest_token now r)))"
  by (simp_all split: prod.splits)

lemma pop_all_coupled:
  "coupled ts r \<Longrightarrow>
   fst (pop_all ts r)
     = map (\<lambda>e. record_at r (fst e)) (zpops (length ts) (zset r))
       @ replicate (length ts - length (zset r)) None
   \<and> length (zset (snd (pop_all ts r))) = length (zset r) - length ts"
proof (induction ts arbitrary: r)
  case Nil
  then show ?case by simp
next
  case (Cons now ts)
  show ?case
  proof (cases "zmax (zset r)")
    case None
    then have z: "zset r = []" by (simp add: zmax_None)
    have f: "faults r = []" using Cons.prems by (simp add: coupled_def)
    have g: "get_newest_token now r = (None, r)"
      using pop_empty [OF z, of now] f by (simp add: send_def)
    have "coupled ts r" using Cons.prems z f by (simp add: coupled_def)
    then show ?thesis using Cons.IH [of r] g z
      by (simp add: pops_Nil pop_all_Cons del: pop_all.simps)
  next
    case (Some e)
    let ?r' = "r\<lparr>zset := remove1 e (zset r), kv := (kv r)(fst e := None)\<rparr>"
    obtain d where d: "record_at r (fst e) = Some d" "get_newest_token now r = (Some d, ?r')"
      using pop_live [OF Cons.prems Some] by blast
    have c: "coupled ts ?r'" using coupled_after_pop [OF Cons.prems Some] .
    have e: "e \<in> set (zset r)" using Some by (rule zmax_in_set)
    have dk: "distinct (map fst (zset r))" using Cons.prems by (simp add: coupled_def)
    have len: "length (remove1 e (zset r)) = length (zset r) - 1" "0 < length (zset r)"
      using e by (auto simp: length_remove1 length_pos_if_in_set)
    have same: "record_at ?r' (fst e') = record_at r (fst e')"
      if "e' \<in> set (zpops (length ts) (remove1 e (zset r)))" for e'
    proof -
      have "e' \<in> set (remove1 e (zset r))" using that set_pops by blast
      then have "fst e' \<noteq> fst e" using distinct_fst_remove1(2) [OF dk e] by (metis imageI)
      then show ?thesis by (simp add: record_at_def)
    qed
    have zr: "zset ?r' = remove1 e (zset r)" by simp
    have m: "map (\<lambda>e'. record_at ?r' (fst e')) (zpops (length ts) (remove1 e (zset r)))
           = map (\<lambda>e'. record_at r (fst e')) (zpops (length ts) (remove1 e (zset r)))"
      by (rule map_cong) (simp_all add: same)
    have rep: "length ts - length (remove1 e (zset r)) = Suc (length ts) - length (zset r)"
      "length (remove1 e (zset r)) - length ts = length (zset r) - Suc (length ts)"
      using len by arith+
    have ih: "fst (pop_all ts ?r')
       = map (\<lambda>e'. record_at r (fst e')) (zpops (length ts) (remove1 e (zset r)))
         @ replicate (Suc (length ts) - length (zset r)) None"
      "length (zset (snd (pop_all ts ?r'))) = length (zset r) - Suc (length ts)"
      using Cons.IH [OF c] unfolding zr m rep by blast+
    show ?thesis using d Some ih by (simp add: pop_all_Cons del: pop_all.simps)
  qed
qed

lemma add_token_step:
  "faults r = [] \<Longrightarrow> snd (add_token now d r) =
     r\<lparr>kv := (kv r)(token_key d \<mapsto> (Json d, now + token_expiry)),
       zset := (token_key d, timestamp d) # filter (\<lambda>e. fst e \<noteq> token_key d) (zset r)\<rparr>"
  by (simp add: add_token_healthy)

lemma add_all_faults: "faults r = [] \<Longrightarrow> faults (add_all as r) = []"
  by (induction as arbitrary: r) (simp_all add: add_token_step)

lemma set_survivors: "set (survivors as) \<subseteq> set as"
  by (induction as) auto

lemma survivors_keys: "distinct (map (\<lambda>b. token_key (snd b)) (survivors as))"
proof (induction as)
  case Nil
  then show ?case by simp
next
  case (Cons a as)
  then show ?case using set_survivors [of as] by auto
qed

lemma survivors_distinct: "distinct (map f as) \<Longrightarrow> distinct (map f (survivors as))"
proof (induction as)
  case Nil
  then show ?case by simp
next
  case (Cons a as)
  then show ?case using set_survivors [of as] by auto
qed

lemma add_all_kv_other:
  "faults r = [] \<Longrightarrow> k \<notin> set (map (\<lambda>b. token_key (snd b)) as) \<Longrightarrow> kv (add_all as r) k = kv r k"
proof (induction as arbitrary: r)
  case Nil
  then show ?case by simp
next
  case (Cons a as)
  have "faults (snd (add_token (fst a) (snd a) r)) = []"
    using Cons.prems(1) by (simp add: add_token_step)
  then have "kv (add_all as (snd (add_token (fst a) (snd a) r))) k
      = kv (snd (add_token (fst a) (snd a) r)) k"
    using Cons.IH Cons.prems(2) by simp
  then show ?case using Cons.prems by (simp add: add_token_step)
qed

lemma add_all_kv:
  "faults r = [] \<Longrightarrow> a \<in> set (survivors as) \<Longrightarrow>
   kv (add_all as r) (token_key (snd a)) = Some (Json (snd a), fst a + token_expiry)"
proof (induction as arbitrary: r)
  case Nil
  then show ?case by simp
next
  case (Cons x xs)
  let ?r1 = "snd (add_token (fst x) (snd x) r)"
  have f1: "faults ?r1 = []" using Cons.prems(1) by (simp add: add_token_step)
  show ?case
  proof (cases "a \<in> set (survivors xs)")
    case True
    then show ?thesis using Cons.IH [OF f1] by simp
  next
    case False
    then have ax: "a = x" and fresh: "token_key (snd x) \<notin> set (map (\<lambda>b. token_key (snd b)) xs)"
      using Cons.prems(2) by (auto split: if_splits)
    have "kv (add_all xs ?r1) (token_key (snd x)) = kv ?r1 (token_key (snd x))"
      using add_all_kv_other [OF f1 fresh] .
    then show ?thesis using ax Cons.prems(1) by (simp add: add_token_step)
  qed
qed

lemma add_all_zset:
  "faults r = [] \<Longrightarrow>
   zset (add_all as r)
     = rev (map entry (survivors as))
       @ filter (\<lambda>e. fst e \<notin> set (map (\<lambda>b. token_key (snd b)) as)) (zset r)"
proof (induction as arbitrary: r)
  case Nil
  then show ?case by simp
next
  case (Cons x xs)
  let ?r1 = "snd (add_token (fst x) (snd x) r)"
  have f1: "faults ?r1 = []" using Cons.prems by (simp add: add_token_step)
  have z1: "zset ?r1 = entry x # filter (\<lambda>e. fst e \<noteq> token_key (snd x)) (zset r)"
    using Cons.prems by (simp add: add_token_step entry_def)
  have ff: "filter (\<lambda>e. fst e \<notin> set (map (\<lambda>b. token_key (snd b)) xs))
              (filter (\<lambda>e. fst e \<noteq> token_key (snd x)) (zset r))
          = filter (\<lambda>e. fst e \<notin> set (map (\<lambda>b. token_key (snd b)) (x # xs))) (zset r)"
    by (auto intro: filter_cong)
  have "zset (add_all (x # xs) r)
      = rev (map entry (survivors xs))
        @ filter (\<lambda>e. fst e \<notin> set (map (\<lambda>b. token_key (snd b)) xs)) (zset ?r1)"
    using Cons.IH [OF f1] by simp
  then show ?case unfolding z1 using ff by (simp add: entry_def)
qed

text \<open>
  Claim C1. Take any run of adds whose timestamps are pairwise distinct, on a store
  with an empty index and a healthy connection, followed by any run of pops, none of
  them later than the expiry of any added value. Then the pops return records
  \<open>ds\<close> and after them only \<open>None\<close>; the timestamps of \<open>ds\<close> are strictly decreasing;
  \<open>ds\<close> are records the store held (adds not overwritten by a later add of the same
  key), as many as there are pops or stored records, whichever is fewer; and once there
  are at least as many pops as stored records, every stored record has been returned and
  the index is empty.
\<close>

theorem pops_newest_first:
  assumes ts: "distinct (map (\<lambda>a. timestamp (snd a)) adds)"
    and healthy: "faults r0 = []" and empty: "zset r0 = []"
    and live: "\<forall>a\<in>set adds. \<forall>p\<in>set pops. p \<le> fst a + token_expiry"
  shows "\<exists>ds. fst (pop_all pops (add_all adds r0))
            = map Some ds @ replicate (length pops - length ds) None
        \<and> sorted_wrt (\<lambda>a b. timestamp b < timestamp a) ds
        \<and> length ds = min (length pops) (length (survivors adds))
        \<and> mset ds \<subseteq># mset (map snd (survivors adds))
        \<and> (length (survivors adds) \<le> length pops \<longrightarrow>
             mset ds = mset (map snd (survivors adds))
             \<and> zset (snd (pop_all pops (add_all adds r0))) = [])"
proof -
  let ?r = "add_all adds r0"
  let ?S = "survivors adds"
  let ?g = "\<lambda>e. the (record_at ?r (fst e))"
  let ?os = "zpops (length pops) (zset ?r)"
  let ?ds = "map ?g ?os"
  have f: "faults ?r = []" using healthy by (rule add_all_faults)
  have zs: "zset ?r = rev (map entry ?S)"
    using add_all_zset [OF healthy, of adds] empty by simp
  have rec: "record_at ?r (fst (entry a)) = Some (snd a)" if "a \<in> set ?S" for a
    using add_all_kv [OF healthy that] by (simp add: record_at_def entry_def)
  have cpl: "coupled pops ?r"
    unfolding coupled_def
  proof (intro conjI ballI)
    show "faults ?r = []" by (rule f)
    have "map fst (zset ?r) = rev (map (\<lambda>b. token_key (snd b)) ?S)"
      by (simp add: zs rev_map entry_def comp_def)
    then show "distinct (map fst (zset ?r))"
      using survivors_keys [of adds] by simp
  next
    fix e assume "e \<in> set (zset ?r)"
    then obtain a where a: "a \<in> set ?S" "e = entry a" by (auto simp: zs)
    have "a \<in> set adds" using a(1) set_survivors by blast
    then have "\<forall>p\<in>set pops. p \<le> fst a + token_expiry" using live by blast
    then show "\<exists>d x. kv ?r (fst e) = Some (Json d, x) \<and> (\<forall>p\<in>set pops. p \<le> x)"
      using add_all_kv [OF healthy a(1)] a(2) by (simp add: entry_def)
  qed
  have out: "fst (pop_all pops ?r)
      = map (\<lambda>e. record_at ?r (fst e)) ?os @ replicate (length pops - length (zset ?r)) None"
    and left: "length (zset (snd (pop_all pops ?r))) = length (zset ?r) - length pops"
    by (rule pop_all_coupled [OF cpl, THEN conjunct1], rule pop_all_coupled [OF cpl, THEN conjunct2])
  have in_os: "\<exists>a\<in>set ?S. e = entry a" if "e \<in> set ?os" for e
    using that set_pops [of "length pops" "zset ?r"] by (auto simp: zs)
  have rec_os: "record_at ?r (fst e) = Some (?g e)" if m: "e \<in> set ?os" for e
  proof -
    obtain a where "a \<in> set ?S" "e = entry a" using in_os [OF m] by blast
    then show ?thesis using rec [of a] by simp
  qed
  have some: "map (\<lambda>e. record_at ?r (fst e)) ?os = map Some ?ds"
  proof -
    have "map (\<lambda>e. record_at ?r (fst e)) ?os = map (\<lambda>e. Some (?g e)) ?os"
      by (rule map_cong [OF refl]) (rule rec_os)
    then show ?thesis by (simp only: map_map o_def)
  qed
  have lz: "length (zset ?r) = length ?S" by (simp add: zs)
  have len: "length ?ds = min (length pops) (length ?S)" by (simp add: length_pops lz)
  have cnt: "length pops - length (zset ?r) = length pops - length ?ds"
    unfolding len lz by arith
  have c1: "fst (pop_all pops ?r) = map Some ?ds @ replicate (length pops - length ?ds) None"
    unfolding out some cnt ..
  have "map snd (zset ?r) = rev (map (\<lambda>a. timestamp (snd a)) ?S)"
    by (simp add: zs rev_map entry_def comp_def)
  then have dscore: "distinct (map snd (zset ?r))"
    using survivors_distinct [OF ts] by simp
  have srt: "sorted_wrt (\<lambda>a b. snd b < snd a) ?os" using sorted_pops [OF dscore] .
  have tsn: "timestamp (?g e) = snd e" if m: "e \<in> set ?os" for e
  proof -
    obtain a where "a \<in> set ?S" "e = entry a" using in_os [OF m] by blast
    then show ?thesis using rec [of a] by (simp add: entry_def)
  qed
  have c2: "sorted_wrt (\<lambda>a b. timestamp b < timestamp a) ?ds"
    unfolding sorted_wrt_map by (rule sorted_wrt_mono_rel [OF _ srt]) (simp add: tsn)
  have gz: "map ?g (zset ?r) = rev (map snd ?S)"
    unfolding zs rev_map map_map by (intro arg_cong [of _ _ rev] map_cong) (simp_all add: rec)
  have img: "mset (map ?g (zset ?r)) = mset (map snd ?S)" by (simp add: gz)
  have "image_mset ?g (mset ?os) \<subseteq># image_mset ?g (mset (zset ?r))"
    by (rule image_mset_subseteq_mono) (rule mset_pops)
  then have c4: "mset ?ds \<subseteq># mset (map snd ?S)" using img by simp
  have c5: "mset ?ds = mset (map snd ?S) \<and> zset (snd (pop_all pops ?r)) = []"
    if "length ?S \<le> length pops"
  proof -
    have "mset ?os = mset (zset ?r)" using that by (simp add: mset_pops_all lz)
    then have "mset ?ds = mset (map ?g (zset ?r))" by simp
    moreover have "length (zset (snd (pop_all pops ?r))) = 0" using left that lz by simp
    ultimately show ?thesis using img by simp
  qed
  show ?thesis
    by (rule exI [of _ ?ds]) (intro conjI impI c1 c2 len c4 c5 [THEN conjunct1] c5 [THEN conjunct2])
qed

lemma scenario_100_105_103:
  "fst (pop_all [10, 11, 12, 13] (add_all three_adds empty_store))
     = [Some (tok ''t-105'' 105), Some (tok ''t-103'' 103), Some (tok ''t-100'' 100), None]"
  by (simp add: three_adds_def empty_store_def tok_def add_token_def setex_def zadd_def send_def
      json_dumps_def token_key_def last10_def token_expiry_def get_newest_token_def
      get_newest_token_try_def zpopmax_def get_def delete_def zless_def)

theorem pops_newest_first_witness:
  "fst (pop_all [10, 11, 12, 13] (add_all three_adds empty_store))
     = [Some (tok ''t-105'' 105), Some (tok ''t-103'' 103), Some (tok ''t-100'' 100), None]
   \<and> (\<exists>ds. fst (pop_all [10, 11, 12, 13] (add_all three_adds empty_store))
            = map Some ds @ replicate (length [10, 11, 12, 13 :: real] - length ds) None
        \<and> sorted_wrt (\<lambda>a b. timestamp b < timestamp a) ds
        \<and> length ds = min (length [10, 11, 12, 13 :: real]) (length (survivors three_adds))
        \<and> mset ds \<subseteq># mset (map snd (survivors three_adds))
        \<and> (length (survivors three_adds) \<le> length [10, 11, 12, 13 :: real] \<longrightarrow>
             mset ds = mset (map snd (survivors three_adds))
             \<and> zset (snd (pop_all [10, 11, 12, 13] (add_all three_adds empty_store))) = []))"
proof (rule conjI)
  show "fst (pop_all [10, 11, 12, 13] (add_all three_adds empty_store))
     = [Some (tok ''t-105'' 105), Some (tok ''t-103'' 103), Some (tok ''t-100'' 100), None]"
    by (rule scenario_100_105_103)
  show "\<exists>ds. fst (pop_all [10, 11, 12, 13] (add_all three_adds empty_store))
            = map Some ds @ replicate (length [10, 11, 12, 13 :: real] - length ds) None
        \<and> sorted_wrt (\<lambda>a b. timestamp b < timestamp a) ds
        \<and> length ds = min (length [10, 11, 12, 13 :: real]) (length (survivors three_adds))
        \<and> mset ds \<subseteq># mset (map snd (survivors three_adds))
        \<and> (length (survivors three_adds) \<le> length [10, 11, 12, 13 :: real] \<longrightarrow>
             mset ds = mset (map snd (survivors three_adds))
             \<and> zset (snd (pop_all [10, 11, 12, 13] (add_all three_adds empty_store))) = [])"
    by (rule pops_newest_first)
       (simp_all add: three_adds_def tok_def empty_store_def token_expiry_def)
qed

subsection \<open>The sweep\<close>

lemma sweep_healthy:
  "fst (send r) \<Longrightarrow>
   zset (snd (cleanup_stale_references now r))
     = filter (\<lambda>e. now - token_expiry - 60 < snd e) (zset r)"
  by (auto simp: cleanup_stale_references_def cleanup_stale_references_try_def
      zremrangebyscore_upto_def send_def not_le Let_def split: list.splits)

text \<open>
  Claim C2, at the boundary. With \<open>time.time() = 1180\<close> the cutoff is
  \<open>1180 - 120 - 60 = 1000\<close>. An index entry whose score is exactly 1000 is not below
  the cutoff, yet the sweep removes it: \<open>ZREMRANGEBYSCORE\<close> is inclusive at its upper
  end. The entry scored 1001 stays.
\<close>

theorem sweep_removes_entry_at_cutoff:
  "zset (snd (cleanup_stale_references 1180
       (empty_store\<lparr>zset := [(''rest_token:a'', 1000), (''rest_token:b'', 1001)]\<rparr>)))
     = [(''rest_token:b'', 1001)]
   \<and> \<not> ((1000::real) < 1180 - token_expiry - 60)
   \<and> fst (cleanup_stale_references 1180
       (empty_store\<lparr>zset := [(''rest_token:a'', 1000), (''rest_token:b'', 1001)]\<rparr>)) = Inr 1"
  by (simp add: cleanup_stale_references_def cleanup_stale_references_try_def
      zremrangebyscore_upto_def send_def empty_store_def token_expiry_def)

subsection \<open>The cleanup route\<close>

lemma cleanup_never_raises: "\<exists>n. fst (cleanup_stale_references now r) = Inr n"
  by (cases "cleanup_stale_references_try now r"; cases "fst (cleanup_stale_references_try now r)")
     (auto simp: cleanup_stale_references_def)

lemma cleanup_route_never_500: "\<exists>n. fst (cleanup_stale_tokens now r) = CleanupDone n"
  using cleanup_never_raises [of now r]
  by (cases "cleanup_stale_references now r") (auto simp: cleanup_stale_tokens_def)

text \<open>
  Claim C5, at a store that cannot be reached. The sweep's command raises
  \<open>ConnectionError\<close>; \<open>cleanup_stale_references\<close> swallows it and returns 0, so the
  route's own handler never runs and \<open>POST /cleanup\<close> answers with success and
  "removed: 0" while the index is unchanged.
\<close>

theorem cleanup_route_hides_sweep_error:
  "fst (cleanup_stale_references_try 1180 (empty_store\<lparr>zset := [(''rest_token:a'', 100)], faults := [True]\<rparr>))
     = Inl ConnectionError
   \<and> fst (cleanup_stale_tokens 1180 (empty_store\<lparr>zset := [(''rest_token:a'', 100)], faults := [True]\<rparr>))
     = CleanupDone 0
   \<and> zset (snd (cleanup_stale_tokens 1180 (empty_store\<lparr>zset := [(''rest_token:a'', 100)], faults := [True]\<rparr>)))
     = [(''rest_token:a'', 100)]"
  by (simp add: cleanup_stale_tokens_def cleanup_stale_references_def
      cleanup_stale_references_try_def zremrangebyscore_upto_def send_def empty_store_def)

section \<open>Properties of the worker pool\<close>

lemma upt3: "[0..<3] = [0, 1, 2]"
  by (simp add: upt_rec)

lemma start_three: "start_token_generation (Some 3) init_manager =
  ((True, Started 3),
   \<lparr>max_workers = 3, workers_running = 0,
    executor = \<lparr>thread_cap = 3,
      running = [\<lparr>task_worker_id = 1, task_event = 0\<rparr>, \<lparr>task_worker_id = 2, task_event = 1\<rparr>,
                 \<lparr>task_worker_id = 3, task_event = 2\<rparr>], queued = []\<rparr>,
    events = [False, False, False], worker_shutdown_events = [0, 1, 2], generation_active = True\<rparr>)"
  by (simp add: start_token_generation_def init_manager_def submit_def upt3 Let_def numeral_3_eq_3)

lemma fold_submit:
  "\<exists>k\<le>length ts. fold submit ts ex
     = ex\<lparr>running := running ex @ take k ts, queued := queued ex @ drop k ts\<rparr>"
proof (induction ts arbitrary: ex)
  case Nil
  then show ?case by simp
next
  case (Cons t ts)
  obtain k where k: "k \<le> length ts"
    "fold submit ts (submit t ex)
       = (submit t ex)\<lparr>running := running (submit t ex) @ take k ts,
                        queued := queued (submit t ex) @ drop k ts\<rparr>"
    using Cons.IH [of "submit t ex"] by blast
  show ?case
  proof (cases "length (running ex) < thread_cap ex")
    case True
    then have "fold submit (t # ts) ex
      = ex\<lparr>running := running ex @ take (Suc k) (t # ts), queued := queued ex @ drop (Suc k) (t # ts)\<rparr>"
      using k(2) by (simp add: submit_def)
    then show ?thesis using k(1) by (intro exI [of _ "Suc k"]) simp
  next
    case False
    have full: "\<not> length (running e) < thread_cap e \<Longrightarrow> fold submit us e = e\<lparr>queued := queued e @ us\<rparr>" for us e
      by (induction us arbitrary: e) (simp_all add: submit_def)
    have "fold submit (t # ts) ex = ex\<lparr>running := running ex @ take 0 (t # ts), queued := queued ex @ drop 0 (t # ts)\<rparr>"
      using False full [of ex "t # ts"] by simp
    then show ?thesis by (intro exI [of _ 0]) simp
  qed
qed

lemma tasks_eq:
  "map (\<lambda>i. \<lparr>task_worker_id = int i + 1, task_event = map (\<lambda>i. b + i) [0..<n] ! i\<rparr>) [0..<n]
   = new_tasks b n"
  by (simp add: new_tasks_def)

text \<open>
  Claim C6, as amended. A call of \<open>start_token_generation\<close> on an inactive pool
  succeeds and records the count it was given when that count is not 0, and the count
  recorded before when it is 0 or absent. With \<open>n\<close> the recorded count (0 when it is
  negative), the call creates \<open>n\<close> new events, all unset and at distinct addresses, keeps
  exactly their addresses as the shutdown events, and submits \<open>n\<close> tasks to the executor
  in order, worker ids 1 to \<open>n\<close>, the \<open>i\<close>-th task holding the \<open>i\<close>-th new event. How
  many of the submitted tasks run at once is the executor's matter (the \<open>k\<close> below).
\<close>

theorem start_records_and_submits:
  assumes "\<not> generation_active m"
  shows "fst (start_token_generation workers m) = (True, Started (requested_count workers m))
    \<and> generation_active (snd (start_token_generation workers m))
    \<and> max_workers (snd (start_token_generation workers m)) = requested_count workers m
    \<and> (\<forall>w. workers = Some w \<and> w \<noteq> 0 \<longrightarrow> max_workers (snd (start_token_generation workers m)) = w)
    \<and> events (snd (start_token_generation workers m))
        = events m @ replicate (nat (requested_count workers m)) False
    \<and> worker_shutdown_events (snd (start_token_generation workers m))
        = [length (events m) ..< length (events m) + nat (requested_count workers m)]
    \<and> distinct (worker_shutdown_events (snd (start_token_generation workers m)))
    \<and> (\<exists>k \<le> nat (requested_count workers m).
          running (executor (snd (start_token_generation workers m)))
            = running (executor m) @ take k (new_tasks (length (events m)) (nat (requested_count workers m)))
        \<and> queued (executor (snd (start_token_generation workers m)))
            = queued (executor m) @ drop k (new_tasks (length (events m)) (nat (requested_count workers m))))"
proof -
  let ?n = "nat (requested_count workers m)"
  let ?ts = "new_tasks (length (events m)) ?n"
  have st: "start_token_generation workers m =
    ((True, Started (requested_count workers m)),
     m\<lparr>generation_active := True, max_workers := requested_count workers m,
       events := events m @ replicate ?n False,
       worker_shutdown_events := map (\<lambda>i. length (events m) + i) [0..<?n],
       executor := fold submit ?ts (executor m)\<rparr>)"
    using assms by (simp add: start_token_generation_def requested_count_def Let_def tasks_eq)
  have refs: "map (\<lambda>i. length (events m) + i) [0..<?n] = [length (events m) ..< length (events m) + ?n]"
    by (simp add: map_add_upt add.commute)
  obtain k where k: "k \<le> length ?ts"
    "fold submit ?ts (executor m)
      = (executor m)\<lparr>running := running (executor m) @ take k ?ts, queued := queued (executor m) @ drop k ?ts\<rparr>"
    using fold_submit [of ?ts "executor m"] by blast
  have len: "length ?ts = ?n" by (simp add: new_tasks_def)
  have ex: "\<exists>k \<le> ?n. running (fold submit ?ts (executor m)) = running (executor m) @ take k ?ts
        \<and> queued (fold submit ?ts (executor m)) = queued (executor m) @ drop k ?ts"
    using k len by (intro exI [of _ k]) simp
  show ?thesis
    unfolding st using ex refs by (simp add: requested_count_def)
qed

lemma upt5: "[0..<5] = [0,1,2,3,4]" by (simp add: upt_rec)

lemma start_five: "start_token_generation (Some 5) init_manager =
  ((True, Started 5),
   \<lparr>max_workers = 5, workers_running = 0,
    executor = \<lparr>thread_cap = 3,
      running = [\<lparr>task_worker_id = 1, task_event = 0\<rparr>, \<lparr>task_worker_id = 2, task_event = 1\<rparr>,
                 \<lparr>task_worker_id = 3, task_event = 2\<rparr>],
      queued = [\<lparr>task_worker_id = 4, task_event = 3\<rparr>, \<lparr>task_worker_id = 5, task_event = 4\<rparr>]\<rparr>,
    events = [False, False, False, False, False], worker_shutdown_events = [0, 1, 2, 3, 4],
    generation_active = True\<rparr>)"
  by (simp add: start_token_generation_def init_manager_def submit_def upt5 Let_def eval_nat_numeral)

theorem start_records_and_submits_witness:
  "fst (start_token_generation (Some 5) init_manager) = (True, Started 5)
   \<and> max_workers (snd (start_token_generation (Some 5) init_manager)) = 5
   \<and> events (snd (start_token_generation (Some 5) init_manager)) = replicate 5 False
   \<and> worker_shutdown_events (snd (start_token_generation (Some 5) init_manager)) = [0, 1, 2, 3, 4]
   \<and> map task_worker_id (running (executor (snd (start_token_generation (Some 5) init_manager)))
         @ queued (executor (snd (start_token_generation (Some 5) init_manager)))) = [1, 2, 3, 4, 5]"
  using start_records_and_submits [of init_manager "Some 5"]
  by (simp add: start_five) (simp add: init_manager_def)

text \<open>
  Claim C6 as stated fails for the count 0: \<open>start(0)\<close> on a fresh manager succeeds,
  records 3 and submits three tasks.
\<close>

theorem start_zero_records_default:
  "fst (start_token_generation (Some 0) init_manager) = (True, Started 3)
   \<and> max_workers (snd (start_token_generation (Some 0) init_manager)) \<noteq> 0
   \<and> length (running (executor (snd (start_token_generation (Some 0) init_manager)))) = 3
   \<and> length (worker_shutdown_events (snd (start_token_generation (Some 0) init_manager))) = 3"
  by (simp add: start_token_generation_def init_manager_def submit_def upt3 Let_def eval_nat_numeral)

text \<open>
  The executor is built once with three threads, whatever count is recorded later: of
  five submitted tasks three run and two wait in the queue.
\<close>

lemma start_five_runs_three:
  "length (running (executor (snd (start_token_generation (Some 5) init_manager)))) = 3
   \<and> length (queued (executor (snd (start_token_generation (Some 5) init_manager)))) = 2"
  by (simp add: start_five)

text \<open>
  Claim C7. While the pool is active, \<open>start_token_generation\<close> returns
  \<open>(False, AlreadyActive)\<close> and leaves the whole manager state as it was: no event is
  created and no task is submitted. While the pool is inactive,
  \<open>stop_token_generation\<close> returns \<open>(False, NotActive)\<close>, again without any change.
\<close>

theorem start_stop_rejected:
  "(generation_active m \<longrightarrow> start_token_generation workers m = ((False, AlreadyActive), m))
   \<and> (\<not> generation_active m \<longrightarrow> stop_token_generation m = ((False, NotActive), m))"
  by (simp add: start_token_generation_def stop_token_generation_def)

theorem start_stop_rejected_witness:
  "start_token_generation None (snd (start_token_generation (Some 3) init_manager))
     = ((False, AlreadyActive), snd (start_token_generation (Some 3) init_manager))
   \<and> length (running (executor (snd (start_token_generation (Some 3) init_manager)))) = 3
   \<and> stop_token_generation init_manager = ((False, NotActive), init_manager)"
  using start_stop_rejected [of "snd (start_token_generation (Some 3) init_manager)" None]
    start_stop_rejected [of init_manager]
  by (simp add: start_three) (simp add: init_manager_def)

end
